theory Spec2Isabelle
  imports Main
begin

section \<open>The EventTarget class of script.js\<close>

text \<open>
  The class keeps one private field, \<^verbatim>\<open>#listeners = new Map()\<close>, from event names to
  \<^verbatim>\<open>Set<Function>\<close>. A JavaScript \<^verbatim>\<open>Map\<close> and a \<^verbatim>\<open>Set\<close> both iterate in insertion
  order, so the map is an association list in key insertion order and each set is a list
  in element insertion order. Functions are compared by identity: a callback is a handle
  (a number naming the function object), and what the function does when it is called is
  looked up in an environment.
\<close>

type_synonym handle = nat

subsection \<open>The built-in \<^verbatim>\<open>Set\<close> operations the class uses\<close>

text \<open>
  \<^verbatim>\<open>set.add(x)\<close> appends \<open>x\<close> unless it is present (a present element keeps its place),
  \<^verbatim>\<open>set.delete(x)\<close> takes it out, \<^verbatim>\<open>set.size\<close> counts the elements.
\<close>

definition Set_add :: "'a \<Rightarrow> 'a list \<Rightarrow> 'a list" where
  "Set_add x s = (if x \<in> set s then s else s @ [x])"

definition Set_delete :: "'a \<Rightarrow> 'a list \<Rightarrow> 'a list" where
  "Set_delete x s = filter (\<lambda>y. y \<noteq> x) s"

definition Set_size :: "'a list \<Rightarrow> nat" where
  "Set_size s = length s"

subsection \<open>The built-in \<^verbatim>\<open>Map\<close> operations the class uses\<close>

text \<open>
  \<^verbatim>\<open>map.get(k)\<close> is \<^verbatim>\<open>undefined\<close> (here \<open>None\<close>) for a missing key; \<^verbatim>\<open>map.set(k, v)\<close>
  overwrites the value of a present key where it stands and appends a new key;
  \<^verbatim>\<open>map.delete(k)\<close> removes the key.
\<close>

fun Map_get :: "('k \<times> 'v) list \<Rightarrow> 'k \<Rightarrow> 'v option" where
  "Map_get [] k = None"
| "Map_get ((k', v) # m) k = (if k' = k then Some v else Map_get m k)"

fun Map_set :: "'k \<Rightarrow> 'v \<Rightarrow> ('k \<times> 'v) list \<Rightarrow> ('k \<times> 'v) list" where
  "Map_set k v [] = [(k, v)]"
| "Map_set k v ((k', v') # m) = (if k' = k then (k, v) # m else (k', v') # Map_set k v m)"

fun Map_delete :: "'k \<Rightarrow> ('k \<times> 'v) list \<Rightarrow> ('k \<times> 'v) list" where
  "Map_delete k [] = []"
| "Map_delete k ((k', v') # m) = (if k' = k then Map_delete k m else (k', v') # Map_delete k m)"

subsection \<open>Program state\<close>

text \<open>
  The state of the running program: the \<^verbatim>\<open>#listeners\<close> field of the one EventTarget
  instance and the lines written with \<^verbatim>\<open>console.log\<close>. The record is extensible, and
  the methods are defined on every extension of it (\<open>'z world_scheme\<close>): whatever else
  a listener reads and writes, a counter of its own for one, sits in the extension.
\<close>

record world =
  listeners :: "(string \<times> handle list) list"
  console :: "string list"

text \<open>\<^verbatim>\<open>new EventTarget()\<close> in a fresh program: an empty map, nothing printed.\<close>

definition new_EventTarget :: world where
  "new_EventTarget = \<lparr>listeners = [], console = []\<rparr>"

subsection \<open>addEventListener (lines 17-28)\<close>

text \<open>
  The set found or created at step 1 is the object stored in the map, so the
  \<^verbatim>\<open>callbacks.add(callback)\<close> of step 2 changes the map's entry in place: the model
  writes the enlarged set back under the same key.
\<close>

definition addEventListener ::
  "string \<Rightarrow> handle \<Rightarrow> 'z world_scheme \<Rightarrow> 'z world_scheme"
where
  "addEventListener eventName callback w =
     (let (callbacks, m) =
        (case Map_get (listeners w) eventName of
           None \<Rightarrow> ([], Map_set eventName [] (listeners w))
         | Some callbacks \<Rightarrow> (callbacks, listeners w))
      in w\<lparr>listeners := Map_set eventName (Set_add callback callbacks) m\<rparr>)"

subsection \<open>removeEventListener (lines 37-49)\<close>

definition removeEventListener ::
  "string \<Rightarrow> handle \<Rightarrow> 'z world_scheme \<Rightarrow> 'z world_scheme"
where
  "removeEventListener eventName callback w =
     (case Map_get (listeners w) eventName of
        None \<Rightarrow> w
      | Some callbacks \<Rightarrow>
          (let callbacks' = Set_delete callback callbacks;
               m = Map_set eventName callbacks' (listeners w)
           in if Set_size callbacks' = 0
              then w\<lparr>listeners := Map_delete eventName m\<rparr>
              else w\<lparr>listeners := m\<rparr>))"

subsection \<open>dispatchEvent (lines 57-68)\<close>

text \<open>
  Calling a function either returns or throws; both leave a state behind. What a
  listener does is arbitrary JavaScript: the environment gives, for each handle, the
  effect on the state of calling the function with no argument. A listener may call the
  three methods of the target itself, so its effect may change \<open>listeners\<close>. The
  listeners are taken to end and to depend on the state alone.
\<close>

datatype 'a completion = Normal 'a | Throw 'a

type_synonym 'z env = "handle \<Rightarrow> 'z world_scheme \<Rightarrow> 'z world_scheme completion"

fun state_of :: "'a completion \<Rightarrow> 'a" where
  "state_of (Normal w) = w"
| "state_of (Throw w) = w"

text \<open>
  \<^verbatim>\<open>[...callbacks].forEach(callback => { callback(); })\<close> over the array copied from the
  set. The result carries the handles that were called, in call order, beside the
  completion: an exception thrown by a listener leaves \<^verbatim>\<open>forEach\<close> at once and the
  listeners after it are not called.
\<close>

fun forEach ::
  "'z env \<Rightarrow> handle list \<Rightarrow> 'z world_scheme \<Rightarrow> handle list \<times> 'z world_scheme completion"
where
  "forEach \<Gamma> [] w = ([], Normal w)"
| "forEach \<Gamma> (callback # rest) w =
     (case \<Gamma> callback w of
        Normal w' \<Rightarrow> (let (called, r) = forEach \<Gamma> rest w' in (callback # called, r))
      | Throw w' \<Rightarrow> ([callback], Throw w'))"

definition dispatchEvent ::
  "'z env \<Rightarrow> string \<Rightarrow> 'z world_scheme \<Rightarrow> handle list \<times> 'z world_scheme completion"
where
  "dispatchEvent \<Gamma> eventName w =
     (case Map_get (listeners w) eventName of
        None \<Rightarrow> ([], Normal w)
      | Some callbacks \<Rightarrow> forEach \<Gamma> callbacks w)"

text \<open>The handles one \<^verbatim>\<open>dispatchEvent\<close> call invoked, and the state it leaves.\<close>

definition invoked :: "'z env \<Rightarrow> string \<Rightarrow> 'z world_scheme \<Rightarrow> handle list" where
  "invoked \<Gamma> eventName w = fst (dispatchEvent \<Gamma> eventName w)"

definition after_dispatch :: "'z env \<Rightarrow> string \<Rightarrow> 'z world_scheme \<Rightarrow> 'z world_scheme" where
  "after_dispatch \<Gamma> eventName w = state_of (snd (dispatchEvent \<Gamma> eventName w))"

subsection \<open>Notions used in the statements\<close>

text \<open>The set registered for an event name; no entry and no handle are the same to a reader.\<close>

definition callbacks_of :: "'z world_scheme \<Rightarrow> string \<Rightarrow> handle list" where
  "callbacks_of w eventName =
     (case Map_get (listeners w) eventName of None \<Rightarrow> [] | Some callbacks \<Rightarrow> callbacks)"

text \<open>
  The shape every reachable \<^verbatim>\<open>#listeners\<close> has: a \<^verbatim>\<open>Map\<close> holds a key once, a \<^verbatim>\<open>Set\<close>
  holds an element once, and no key is left with an empty set.
\<close>

definition invariant :: "'z world_scheme \<Rightarrow> bool" where
  "invariant w =
     (distinct (map fst (listeners w)) \<and>
      list_all (\<lambda>(eventName, callbacks). callbacks \<noteq> [] \<and> distinct callbacks) (listeners w))"

text \<open>A listener that returns, in whatever state it is called, rather than throws.\<close>

definition returns_normally :: "'z env \<Rightarrow> handle \<Rightarrow> bool" where
  "returns_normally \<Gamma> h = (\<forall>w. \<exists>w'. \<Gamma> h w = Normal w')"

text \<open>\<^verbatim>\<open>console.log(line)\<close>.\<close>

definition console_log :: "string \<Rightarrow> 'z world_scheme \<Rightarrow> 'z world_scheme" where
  "console_log line w = w\<lparr>console := console w @ [line]\<rparr>"

text \<open>A history of registrations and removals made on the target, oldest first.\<close>

datatype registration = Add string handle | Remove string handle

fun perform :: "registration \<Rightarrow> 'z world_scheme \<Rightarrow> 'z world_scheme" where
  "perform (Add eventName callback) w = addEventListener eventName callback w"
| "perform (Remove eventName callback) w = removeEventListener eventName callback w"

text \<open>The handles a history registers under an event name, one for every registration.\<close>

fun registrations :: "string \<Rightarrow> registration list \<Rightarrow> handle list" where
  "registrations e [] = []"
| "registrations e (Add e' h # ops) =
     (if e' = e then h # registrations e ops else registrations e ops)"
| "registrations e (Remove e' h # ops) = registrations e ops"

text \<open>
  The registrations that still stand at the end of the history: those with no later
  removal of the same handle from the same event name.
\<close>

fun standing :: "string \<Rightarrow> registration list \<Rightarrow> handle list" where
  "standing e [] = []"
| "standing e (Add e' h # ops) =
     (if e' = e \<and> Remove e h \<notin> set ops then h # standing e ops else standing e ops)"
| "standing e (Remove e' h # ops) = standing e ops"

text \<open>Every element once, at the place of its first occurrence.\<close>

fun first_occurrences :: "'a list \<Rightarrow> 'a list" where
  "first_occurrences [] = []"
| "first_occurrences (x # xs) = x # first_occurrences (filter (\<lambda>y. y \<noteq> x) xs)"

text \<open>
  The order the ordering claim names, in its own words: the handles now registered for
  the event name, in the order in which each was first registered in the history.
\<close>

definition first_registered :: "string \<Rightarrow> registration list \<Rightarrow> handle list" where
  "first_registered e ops =
     filter (\<lambda>h. h \<in> set (callbacks_of (fold perform ops new_EventTarget) e))
       (first_occurrences (registrations e ops))"

subsection \<open>The sample usage (lines 73-91)\<close>

text \<open>
  Top-level statements of a script that uses the target. A run returns the handles
  invoked by each \<^verbatim>\<open>dispatchEvent\<close> statement, in statement order; an exception that
  leaves \<^verbatim>\<open>dispatchEvent\<close> is not caught and ends the script.
\<close>

datatype statement =
    ConsoleLog string
  | AddEventListener string handle
  | RemoveEventListener string handle
  | DispatchEvent string

fun exec ::
  "'z env \<Rightarrow> statement list \<Rightarrow> 'z world_scheme \<Rightarrow>
     handle list list \<times> 'z world_scheme completion"
where
  "exec \<Gamma> [] w = ([], Normal w)"
| "exec \<Gamma> (ConsoleLog line # rest) w = exec \<Gamma> rest (console_log line w)"
| "exec \<Gamma> (AddEventListener e h # rest) w = exec \<Gamma> rest (addEventListener e h w)"
| "exec \<Gamma> (RemoveEventListener e h # rest) w = exec \<Gamma> rest (removeEventListener e h w)"
| "exec \<Gamma> (DispatchEvent e # rest) w =
     (case dispatchEvent \<Gamma> e w of
        (called, Normal w') \<Rightarrow> (let (more, r) = exec \<Gamma> rest w' in (called # more, r))
      | (called, Throw w') \<Rightarrow> ([called], Throw w'))"

text \<open>
  The three function objects of the script: \<^verbatim>\<open>logHello\<close>, \<^verbatim>\<open>logWorld\<close> and the arrow
  function written in place at line 81.
\<close>

definition logHello :: handle where "logHello = 0"

definition logWorld :: handle where "logWorld = 1"

definition worldAgain :: handle where "worldAgain = 2"

definition sample_listeners :: "unit env" where
  "sample_listeners h w =
     (if h = logHello then Normal (console_log ''hello'' w)
      else if h = logWorld then Normal (console_log ''world'' w)
      else if h = worldAgain then Normal (console_log ''world again!'' w)
      else Normal w)"

definition sample_usage :: "statement list" where
  "sample_usage =
     [ConsoleLog ''--- Initial Registration and Dispatch ---'',
      AddEventListener ''hello'' logHello,
      AddEventListener ''world'' logWorld,
      AddEventListener ''world'' worldAgain,
      AddEventListener ''hello'' logHello,
      DispatchEvent ''hello'',
      DispatchEvent ''world'',
      ConsoleLog (CHR 0x0A # ''--- Removing Listener and Re-dispatching ---''),
      RemoveEventListener ''hello'' logHello,
      DispatchEvent ''hello'',
      DispatchEvent ''world'']"

subsection \<open>Listeners and states for the worked examples\<close>

text \<open>Listeners that do nothing.\<close>

definition idle :: "unit env" where
  "idle h w = Normal w"

text \<open>
  Listeners that change the target while it dispatches \<open>''e''\<close>: handle 10 registers
  handle 12, handle 11 removes handle 13.
\<close>

definition reentrant :: "unit env" where
  "reentrant h w =
     (if h = 10 then Normal (addEventListener ''e'' 12 w)
      else if h = 11 then Normal (removeEventListener ''e'' 13 w)
      else Normal w)"

text \<open>Handle 1 throws; every other handle prints a line.\<close>

definition failing :: "unit env" where
  "failing h w = (if h = 1 then Throw w else Normal (console_log ''ran'' w))"

definition two_events :: world where
  "two_events = \<lparr>listeners = [(''hello'', [0]), (''world'', [1, 2])], console = []\<rparr>"

definition three_listeners :: world where
  "three_listeners = \<lparr>listeners = [(''e'', [10, 11, 13])], console = []\<rparr>"

section \<open>Properties of the built-in containers\<close>

lemma Map_get_set: "Map_get (Map_set k v m) k' = (if k' = k then Some v else Map_get m k')"
  by (induction m) auto

lemma Map_get_delete: "Map_get (Map_delete k m) k' = (if k' = k then None else Map_get m k')"
  by (induction m) auto

lemma Map_set_same: "Map_get m k = Some v \<Longrightarrow> Map_set k v m = m"
  by (induction m) (auto split: if_splits)

lemma Map_set_set: "Map_set k v (Map_set k v' m) = Map_set k v m"
  by (induction m) auto

lemma Map_delete_absent: "Map_get m k = None \<Longrightarrow> Map_delete k m = m"
  by (induction m) (auto split: if_splits)

lemma Map_delete_set: "Map_delete k (Map_set k v m) = Map_delete k m"
  by (induction m) auto

lemma Map_get_entry: "Map_get m k = Some v \<Longrightarrow> (k, v) \<in> set m"
  by (induction m) (auto split: if_splits)

lemma keys_Map_set:
  "map fst (Map_set k v m) = (if k \<in> set (map fst m) then map fst m else map fst m @ [k])"
  by (induction m) (auto split: if_splits)

lemma keys_Map_delete: "map fst (Map_delete k m) = filter (\<lambda>k'. k' \<noteq> k) (map fst m)"
  by (induction m) auto

lemma entries_Map_set: "set (Map_set k v m) \<subseteq> insert (k, v) (set m)"
  by (induction m) (auto split: if_splits)

lemma entries_Map_delete: "set (Map_delete k m) \<subseteq> set m"
  by (induction m) (auto split: if_splits)

lemma distinct_Set_add: "distinct s \<Longrightarrow> distinct (Set_add h s)"
  by (simp add: Set_add_def)

lemma distinct_Set_delete: "distinct s \<Longrightarrow> distinct (Set_delete h s)"
  by (simp add: Set_delete_def)

lemma Set_add_nonempty: "Set_add h s \<noteq> []"
  by (auto simp: Set_add_def)

lemma Set_delete_absent: "x \<notin> set s \<Longrightarrow> Set_delete x s = s"
  by (induction s) (auto simp: Set_delete_def)

lemma Set_delete_Set_add: "x \<notin> set s \<Longrightarrow> Set_delete x (Set_add x s) = s"
  using Set_delete_absent [of x s] by (simp add: Set_add_def) (simp add: Set_delete_def)

lemma count_list_distinct: "distinct xs \<Longrightarrow> x \<in> set xs \<Longrightarrow> count_list xs x = 1"
  by (induction xs) auto

lemma count_list_absent: "x \<notin> set xs \<Longrightarrow> count_list xs x = 0"
  by (induction xs) auto

section \<open>What the methods do to the registry\<close>

lemma get_addEventListener:
  "Map_get (listeners (addEventListener e h w)) e' =
     (if e' = e then Some (Set_add h (callbacks_of w e)) else Map_get (listeners w) e')"
  by (simp add: addEventListener_def callbacks_of_def Map_get_set split: option.splits)

lemma get_removeEventListener:
  "Map_get (listeners (removeEventListener e h w)) e' =
     (if e' = e
      then (if Set_delete h (callbacks_of w e) = [] then None
            else Some (Set_delete h (callbacks_of w e)))
      else Map_get (listeners w) e')"
  by (simp add: removeEventListener_def callbacks_of_def Let_def Set_size_def Set_delete_def
      Map_get_set Map_get_delete split: option.splits)

lemma callbacks_of_addEventListener:
  "callbacks_of (addEventListener e h w) e' =
     (if e' = e then Set_add h (callbacks_of w e) else callbacks_of w e')"
  by (simp add: callbacks_of_def [of "addEventListener e h w"] get_addEventListener)
     (simp add: callbacks_of_def)

lemma callbacks_of_removeEventListener:
  "callbacks_of (removeEventListener e h w) e' =
     (if e' = e then Set_delete h (callbacks_of w e) else callbacks_of w e')"
  by (simp add: callbacks_of_def [of "removeEventListener e h w"] get_removeEventListener)
     (simp add: callbacks_of_def)

lemma callbacks_of_no_listeners: "listeners w = [] \<Longrightarrow> callbacks_of w e = []"
  by (simp add: callbacks_of_def)

lemma listeners_new_EventTarget: "listeners new_EventTarget = []"
  by (simp add: new_EventTarget_def)

lemma console_addEventListener: "console (addEventListener e h w) = console w"
  by (simp add: addEventListener_def split: option.splits)

lemma console_removeEventListener: "console (removeEventListener e h w) = console w"
  by (simp add: removeEventListener_def Let_def split: option.splits)

lemma addEventListener_twice:
  "addEventListener e h (addEventListener e h w) = addEventListener e h w"
  by (simp add: addEventListener_def Map_get_set Map_set_set Set_add_def split: option.splits)

lemma removeEventListener_twice:
  "removeEventListener e h (removeEventListener e h w) = removeEventListener e h w"
  by (auto simp add: removeEventListener_def Let_def Map_get_set Map_get_delete Map_set_set Set_delete_def Set_size_def split: option.splits)

lemma addEventListener_present:
  "h \<in> set (callbacks_of w e) \<Longrightarrow> addEventListener e h w = w"
  by (auto simp: addEventListener_def callbacks_of_def Set_add_def Map_set_same
      split: option.splits)

section \<open>The invariant\<close>

lemma invariant_entry:
  "invariant w \<Longrightarrow> Map_get (listeners w) e = Some s \<Longrightarrow> s \<noteq> [] \<and> distinct s"
  by (auto simp: invariant_def list_all_iff dest!: Map_get_entry)

lemma distinct_callbacks_of: "invariant w \<Longrightarrow> distinct (callbacks_of w e)"
  using invariant_entry [of w e] by (auto simp: callbacks_of_def split: option.splits)

lemma invariant_new_EventTarget: "invariant new_EventTarget"
  by (simp add: invariant_def new_EventTarget_def)

lemma invariant_addEventListener:
  assumes "invariant w"
  shows "invariant (addEventListener e h w)"
proof -
  let ?m = "listeners w"
  have d: "distinct (callbacks_of w e)"
    using assms invariant_entry [of w e] by (auto simp: callbacks_of_def split: option.splits)
  have l: "listeners (addEventListener e h w) = Map_set e (Set_add h (callbacks_of w e)) ?m"
    by (simp add: addEventListener_def callbacks_of_def Map_set_set split: option.splits)
  have k: "distinct (map fst (Map_set e (Set_add h (callbacks_of w e)) ?m))"
    using assms by (simp add: keys_Map_set invariant_def)
  have v: "list_all (\<lambda>(eventName, callbacks). callbacks \<noteq> [] \<and> distinct callbacks)
             (Map_set e (Set_add h (callbacks_of w e)) ?m)"
    unfolding list_all_iff
  proof
    fix x assume "x \<in> set (Map_set e (Set_add h (callbacks_of w e)) ?m)"
    then have "x = (e, Set_add h (callbacks_of w e)) \<or> x \<in> set ?m"
      using entries_Map_set [of e "Set_add h (callbacks_of w e)" ?m] by blast
    then show "case x of (eventName, callbacks) \<Rightarrow> callbacks \<noteq> [] \<and> distinct callbacks"
      using assms d by (auto simp: invariant_def list_all_iff Set_add_nonempty distinct_Set_add)
  qed
  show ?thesis using l k v by (simp add: invariant_def)
qed

lemma invariant_removeEventListener:
  assumes "invariant w"
  shows "invariant (removeEventListener e h w)"
proof (cases "Map_get (listeners w) e")
  case None
  then show ?thesis using assms by (simp add: removeEventListener_def)
next
  case (Some s)
  let ?s = "Set_delete h s"
  let ?m = "Map_set e ?s (listeners w)"
  have ds: "distinct ?s"
    using assms Some invariant_entry [of w e s] by (simp add: distinct_Set_delete)
  have k: "distinct (map fst ?m)"
    using assms by (simp add: keys_Map_set invariant_def)
  show ?thesis
  proof (cases "?s = []")
    case True
    have "listeners (removeEventListener e h w) = Map_delete e ?m"
      using Some True by (simp add: removeEventListener_def Let_def Set_size_def)
    moreover have "distinct (map fst (Map_delete e ?m))"
      using k by (simp add: keys_Map_delete)
    moreover have "list_all (\<lambda>(eventName, callbacks). callbacks \<noteq> [] \<and> distinct callbacks)
                     (Map_delete e ?m)"
      using assms entries_Map_delete [of e "listeners w"]
      by (auto simp: Map_delete_set invariant_def list_all_iff)
    ultimately show ?thesis by (simp add: invariant_def)
  next
    case False
    have "listeners (removeEventListener e h w) = ?m"
      using Some False by (simp add: removeEventListener_def Let_def Set_size_def)
    moreover have "list_all (\<lambda>(eventName, callbacks). callbacks \<noteq> [] \<and> distinct callbacks) ?m"
      using assms False ds entries_Map_set [of e ?s "listeners w"]
      by (auto simp: invariant_def list_all_iff)
    ultimately show ?thesis using k by (simp add: invariant_def)
  qed
qed

lemma invariant_history: "invariant w \<Longrightarrow> invariant (fold perform ops w)"
proof (induction ops arbitrary: w)
  case Nil
  then show ?case by simp
next
  case (Cons op ops)
  have "invariant (perform op w)"
    using Cons.prems by (cases op) (simp_all add: invariant_addEventListener invariant_removeEventListener)
  then show ?case using Cons.IH by simp
qed

lemma removeEventListener_absent:
  "invariant w \<Longrightarrow> h \<notin> set (callbacks_of w e) \<Longrightarrow> removeEventListener e h w = w"
proof (cases "Map_get (listeners w) e")
  case None
  then show ?thesis by (simp add: removeEventListener_def)
next
  case (Some s)
  assume inv: "invariant w" and n: "h \<notin> set (callbacks_of w e)"
  have "s \<noteq> []" using inv Some invariant_entry by blast
  moreover have "Set_delete h s = s" using n Some by (simp add: callbacks_of_def Set_delete_absent)
  ultimately show ?thesis
    using Some by (simp add: removeEventListener_def Let_def Set_size_def Map_set_same)
qed

section \<open>The dispatch loop\<close>

text \<open>
  Whatever the listeners do, the handles called are an initial stretch of the array
  copied before the first call.
\<close>

lemma forEach_prefix: "\<exists>n. fst (forEach \<Gamma> cbs w) = take n cbs"
proof (induction cbs arbitrary: w)
  case Nil
  show ?case by simp
next
  case (Cons h cbs)
  show ?case
  proof (cases "\<Gamma> h w")
    case (Normal w')
    from Cons [of w'] obtain n where "fst (forEach \<Gamma> cbs w') = take n cbs" ..
    then have "fst (forEach \<Gamma> (h # cbs) w) = take (Suc n) (h # cbs)"
      using Normal by (simp add: case_prod_unfold)
    then show ?thesis ..
  next
    case (Throw w')
    then have "fst (forEach \<Gamma> (h # cbs) w) = take (Suc 0) (h # cbs)" by simp
    then show ?thesis ..
  qed
qed

lemma forEach_subset: "set (fst (forEach \<Gamma> cbs w)) \<subseteq> set cbs"
proof -
  obtain n where "fst (forEach \<Gamma> cbs w) = take n cbs" using forEach_prefix ..
  then show ?thesis by (simp add: set_take_subset)
qed

lemma forEach_returns:
  "\<forall>h\<in>set cbs. returns_normally \<Gamma> h \<Longrightarrow>
   forEach \<Gamma> cbs w = (cbs, Normal (foldl (\<lambda>w h. state_of (\<Gamma> h w)) w cbs))"
proof (induction cbs arbitrary: w)
  case Nil
  show ?case by simp
next
  case (Cons h cbs)
  from Cons.prems have "returns_normally \<Gamma> h" by simp
  then obtain w' where h: "\<Gamma> h w = Normal w'"
    unfolding returns_normally_def by blast
  from Cons.prems have "\<forall>h\<in>set cbs. returns_normally \<Gamma> h" by simp
  from Cons.IH [OF this, of w'] show ?case using h by simp
qed

lemma forEach_Normal: "snd (forEach \<Gamma> cbs w) = Normal w' \<Longrightarrow> fst (forEach \<Gamma> cbs w) = cbs"
proof (induction cbs arbitrary: w)
  case Nil
  show ?case by simp
next
  case (Cons h cbs)
  show ?case
  proof (cases "\<Gamma> h w")
    case (Normal v)
    with Cons.prems have "snd (forEach \<Gamma> cbs v) = Normal w'"
      by (simp add: case_prod_unfold Let_def)
    then have "fst (forEach \<Gamma> cbs v) = cbs" by (rule Cons.IH)
    then show ?thesis using Normal by (simp add: case_prod_unfold Let_def)
  next
    case (Throw v)
    with Cons.prems show ?thesis by simp
  qed
qed

lemma forEach_append:
  "forEach \<Gamma> (xs @ ys) w =
     (case forEach \<Gamma> xs w of
        (called, Normal w') \<Rightarrow> (let (called', r) = forEach \<Gamma> ys w' in (called @ called', r))
      | (called, Throw w') \<Rightarrow> (called, Throw w'))"
  by (induction xs arbitrary: w) (auto split: completion.splits prod.splits)

text \<open>
  The policy of the code for a listener that throws: the exception leaves
  \<^verbatim>\<open>dispatchEvent\<close> and the listeners after it in the array are not called.
\<close>

lemma forEach_throws:
  "forEach \<Gamma> pre w = (pre, Normal w') \<Longrightarrow> \<Gamma> h w' = Throw w'' \<Longrightarrow>
   forEach \<Gamma> (pre @ h # post) w = (pre @ [h], Throw w'')"
  by (simp add: forEach_append)

lemma forEach_preserves:
  "(\<And>h w. P w \<Longrightarrow> P (state_of (\<Gamma> h w))) \<Longrightarrow> P w \<Longrightarrow> P (state_of (snd (forEach \<Gamma> cbs w)))"
proof (induction cbs arbitrary: w)
  case Nil
  then show ?case by simp
next
  case (Cons h cbs)
  have "P (state_of (\<Gamma> h w))" using Cons.prems by blast
  then show ?case
    using Cons.IH [of "state_of (\<Gamma> h w)"] Cons.prems(1)
    by (cases "\<Gamma> h w") (auto simp: case_prod_unfold Let_def)
qed

lemma after_dispatch_preserves:
  "(\<And>h w. P w \<Longrightarrow> P (state_of (\<Gamma> h w))) \<Longrightarrow> P w \<Longrightarrow> P (after_dispatch \<Gamma> e w)"
  using forEach_preserves [of P \<Gamma>]
  by (simp add: after_dispatch_def dispatchEvent_def split: option.splits)

lemma dispatchEvent_returns:
  "Map_get (listeners w) e = Some cbs \<Longrightarrow> \<forall>h\<in>set cbs. returns_normally \<Gamma> h \<Longrightarrow>
   dispatchEvent \<Gamma> e w = (cbs, Normal (foldl (\<lambda>w h. state_of (\<Gamma> h w)) w cbs))"
  by (simp add: dispatchEvent_def forEach_returns)

lemma dispatchEvent_absent:
  "Map_get (listeners w) e = None \<Longrightarrow> dispatchEvent \<Gamma> e w = ([], Normal w)"
  by (simp add: dispatchEvent_def)

lemma invoked_subset: "set (invoked \<Gamma> e w) \<subseteq> set (callbacks_of w e)"
  by (simp add: invoked_def dispatchEvent_def callbacks_of_def forEach_subset split: option.splits)

lemma invoked_returns:
  "\<forall>h\<in>set (callbacks_of w e). returns_normally \<Gamma> h \<Longrightarrow> invoked \<Gamma> e w = callbacks_of w e"
  by (simp add: invoked_def dispatchEvent_def callbacks_of_def forEach_returns split: option.splits)

section \<open>Histories\<close>

lemma set_first_occurrences: "set (first_occurrences xs) = set xs"
  by (induction xs rule: first_occurrences.induct) auto

lemma first_occurrences_filter:
  "first_occurrences (filter P xs) = filter P (first_occurrences xs)"
proof (induction xs rule: first_occurrences.induct)
  case 1
  show ?case by simp
next
  case (2 x xs)
  have c: "filter (\<lambda>y. y \<noteq> x) (filter P xs) = filter P (filter (\<lambda>y. y \<noteq> x) xs)"
    by (simp add: conj_commute)
  show ?case
  proof (cases "P x")
    case True
    then show ?thesis using 2 c by simp
  next
    case False
    then have "filter P (filter (\<lambda>y. y \<noteq> x) xs) = filter P xs"
      by (auto intro: filter_cong)
    then show ?thesis using False 2 by simp
  qed
qed

lemma first_occurrences_snoc:
  "first_occurrences (xs @ [x]) =
     (if x \<in> set xs then first_occurrences xs else first_occurrences xs @ [x])"
  by (induction xs rule: first_occurrences.induct) auto

lemma first_occurrences_Set_add: "first_occurrences (xs @ [x]) = Set_add x (first_occurrences xs)"
  by (simp add: first_occurrences_snoc Set_add_def set_first_occurrences)

lemma first_occurrences_Set_delete:
  "first_occurrences (filter (\<lambda>y. y \<noteq> x) xs) = Set_delete x (first_occurrences xs)"
  by (simp add: first_occurrences_filter Set_delete_def)

lemma standing_snoc_Add:
  "standing e (ops @ [Add e' h]) = standing e ops @ (if e' = e then [h] else [])"
  by (induction e ops rule: standing.induct) auto

lemma standing_snoc_Remove:
  "standing e (ops @ [Remove e' h]) =
     (if e' = e then filter (\<lambda>y. y \<noteq> h) (standing e ops) else standing e ops)"
  by (induction e ops rule: standing.induct) auto

lemma standing_no_Remove:
  "\<forall>e h. Remove e h \<notin> set ops \<Longrightarrow> standing e ops = registrations e ops"
  by (induction e ops rule: standing.induct) auto

text \<open>
  After any history from a new target, the set of an event name lists the registrations
  that still stand, each handle at its first such registration.
\<close>

lemma callbacks_of_history:
  "listeners w = [] \<Longrightarrow> callbacks_of (fold perform ops w) e = first_occurrences (standing e ops)"
proof (induction ops rule: rev_induct)
  case Nil
  then show ?case by (simp add: callbacks_of_no_listeners)
next
  case (snoc op ops)
  show ?case
  proof (cases op)
    case (Add e' h)
    then show ?thesis
      using snoc
      by (auto simp: callbacks_of_addEventListener standing_snoc_Add first_occurrences_Set_add)
  next
    case (Remove e' h)
    then show ?thesis
      using snoc
      by (auto simp: callbacks_of_removeEventListener standing_snoc_Remove
          first_occurrences_Set_delete)
  qed
qed

lemma never_added:
  "Add e h \<notin> set ops \<Longrightarrow> h \<notin> set (callbacks_of w e) \<Longrightarrow>
   h \<notin> set (callbacks_of (fold perform ops w) e)"
proof (induction ops arbitrary: w)
  case Nil
  then show ?case by simp
next
  case (Cons op ops)
  have "h \<notin> set (callbacks_of (perform op w) e)"
    using Cons.prems
    by (cases op)
       (auto simp: callbacks_of_addEventListener callbacks_of_removeEventListener
          Set_add_def Set_delete_def)
  then show ?case using Cons.IH [of "perform op w"] Cons.prems(1) by simp
qed

section \<open>Worked examples\<close>

lemmas eval_defs = dispatchEvent_def addEventListener_def removeEventListener_def
  Set_add_def Set_delete_def Set_size_def new_EventTarget_def console_log_def
  invoked_def after_dispatch_def callbacks_of_def

lemma returns_normally_sample: "returns_normally sample_listeners h"
  by (simp add: returns_normally_def sample_listeners_def)

lemma returns_normally_reentrant: "returns_normally reentrant h"
  by (simp add: returns_normally_def reentrant_def)

lemma returns_normally_idle: "returns_normally idle h"
  by (simp add: returns_normally_def idle_def)

lemma sample_listeners_keep_listeners:
  "listeners (state_of (sample_listeners h w)) = listeners w"
  by (simp add: sample_listeners_def console_log_def)

lemma invariant_two_events: "invariant two_events"
  by (simp add: invariant_def two_events_def)

text \<open>
  Handle 1 throws: handle 0 has run, handle 2 is never called, and the caller of
  \<^verbatim>\<open>dispatchEvent\<close> gets the exception.
\<close>

lemma throw_aborts:
  "dispatchEvent failing ''e'' \<lparr>listeners = [(''e'', [0, 1, 2])], console = []\<rparr> =
     ([0, 1], Throw \<lparr>listeners = [(''e'', [0, 1, 2])], console = [''ran'']\<rparr>)"
  by (simp add: failing_def eval_defs)

text \<open>
  Handle 10 registers handle 12 and handle 11 removes handle 13 while \<open>''e''\<close> is
  dispatched: 13 is still called, 12 is not, and the registry afterwards holds 12 in
  place of 13.
\<close>

lemma reentrant_run:
  "dispatchEvent reentrant ''e'' \<lparr>listeners = [(''e'', [10, 11, 13])], console = []\<rparr> =
     ([10, 11, 13], Normal \<lparr>listeners = [(''e'', [10, 11, 12])], console = []\<rparr>)"
  by (simp add: reentrant_def eval_defs)

section \<open>The claims\<close>

text \<open>
  Claim C1. When the event name has an entry, \<^verbatim>\<open>dispatchEvent\<close> calls the handles of its
  set one after the other, each exactly once and with no argument (a listener receives
  nothing but the state it runs in), each in the state the one before it left, and
  returns after the last call; when the event name has no entry it calls nothing and
  changes nothing. The listeners are those that return: what happens when a listener
  throws is \<open>forEach_throws\<close>.
\<close>

theorem dispatchEvent_invokes_each_once:
  "invariant w \<Longrightarrow>
   (\<forall>callbacks. Map_get (listeners w) e = Some callbacks \<longrightarrow>
      (\<forall>h\<in>set callbacks. returns_normally \<Gamma> h) \<longrightarrow>
        dispatchEvent \<Gamma> e w =
          (callbacks, Normal (foldl (\<lambda>w h. state_of (\<Gamma> h w)) w callbacks)) \<and>
        (\<forall>h. count_list (invoked \<Gamma> e w) h = (if h \<in> set callbacks then 1 else 0))) \<and>
   (Map_get (listeners w) e = None \<longrightarrow> dispatchEvent \<Gamma> e w = ([], Normal w))"
proof (intro conjI allI impI)
  fix callbacks h
  assume inv: "invariant w" and g: "Map_get (listeners w) e = Some callbacks"
    and r: "\<forall>h\<in>set callbacks. returns_normally \<Gamma> h"
  show d: "dispatchEvent \<Gamma> e w =
          (callbacks, Normal (foldl (\<lambda>w h. state_of (\<Gamma> h w)) w callbacks))"
    using g r by (rule dispatchEvent_returns)
  have "distinct callbacks" using inv g invariant_entry by blast
  then show "count_list (invoked \<Gamma> e w) h = (if h \<in> set callbacks then 1 else 0)"
    using d by (simp add: invoked_def count_list_distinct count_list_absent)
next
  assume "Map_get (listeners w) e = None"
  then show "dispatchEvent \<Gamma> e w = ([], Normal w)" by (rule dispatchEvent_absent)
qed

theorem dispatchEvent_invokes_each_once_witness:
  "invariant two_events \<and>
   Map_get (listeners two_events) ''world'' = Some [1, 2] \<and>
   returns_normally sample_listeners 1 \<and> returns_normally sample_listeners 2 \<and>
   dispatchEvent sample_listeners ''world'' two_events =
     ([1, 2], Normal (two_events\<lparr>console := [''world'', ''world again!'']\<rparr>)) \<and>
   count_list (invoked sample_listeners ''world'' two_events) 2 = 1 \<and>
   count_list (invoked sample_listeners ''world'' two_events) 0 = 0 \<and>
   Map_get (listeners two_events) ''other'' = None \<and>
   dispatchEvent sample_listeners ''other'' two_events = ([], Normal two_events)"
proof -
  have g: "Map_get (listeners two_events) ''world'' = Some [1, 2]"
    by (simp add: two_events_def)
  have n: "Map_get (listeners two_events) ''other'' = None"
    by (simp add: two_events_def)
  have r: "\<forall>h\<in>set [1, 2]. returns_normally sample_listeners h"
    by (simp add: returns_normally_sample)
  have f: "foldl (\<lambda>w h. state_of (sample_listeners h w)) two_events [1, 2]
           = two_events\<lparr>console := [''world'', ''world again!'']\<rparr>"
    by (simp add: sample_listeners_def logHello_def logWorld_def worldAgain_def console_log_def
        two_events_def)
  show ?thesis
    using dispatchEvent_invokes_each_once [OF invariant_two_events, of "''world''" sample_listeners]
      dispatchEvent_invokes_each_once [OF invariant_two_events, of "''other''" sample_listeners]
      invariant_two_events g n r f
    by simp
qed

text \<open>
  Claim C2. Registering a handle twice under an event name leaves the registry as
  registering it once does, registering a handle that is present changes nothing, and
  one dispatch after the double registration calls the handle exactly once (the
  listeners of the event name being ones that return).
\<close>

theorem addEventListener_deduplicates:
  "addEventListener e h (addEventListener e h w) = addEventListener e h w \<and>
   (h \<in> set (callbacks_of w e) \<longrightarrow> addEventListener e h w = w) \<and>
   (invariant w \<longrightarrow>
    (\<forall>h'\<in>set (callbacks_of (addEventListener e h w) e). returns_normally \<Gamma> h') \<longrightarrow>
      count_list (invoked \<Gamma> e (addEventListener e h (addEventListener e h w))) h = 1)"
proof (intro conjI impI)
  show "addEventListener e h (addEventListener e h w) = addEventListener e h w"
    by (rule addEventListener_twice)
next
  assume "h \<in> set (callbacks_of w e)"
  then show "addEventListener e h w = w" by (rule addEventListener_present)
next
  let ?w = "addEventListener e h w"
  assume inv: "invariant w" and r: "\<forall>h'\<in>set (callbacks_of ?w e). returns_normally \<Gamma> h'"
  have "invoked \<Gamma> e ?w = callbacks_of ?w e" using r by (rule invoked_returns)
  moreover have "distinct (callbacks_of ?w e)"
    using inv by (simp add: distinct_callbacks_of invariant_addEventListener)
  moreover have "h \<in> set (callbacks_of ?w e)"
    by (simp add: callbacks_of_addEventListener Set_add_def)
  ultimately show "count_list (invoked \<Gamma> e (addEventListener e h ?w)) h = 1"
    by (simp add: addEventListener_twice count_list_distinct)
qed

theorem addEventListener_deduplicates_witness:
  "invariant two_events \<and>
   returns_normally sample_listeners 1 \<and> returns_normally sample_listeners 2 \<and>
   returns_normally sample_listeners 3 \<and>
   callbacks_of (addEventListener ''world'' 3 two_events) ''world'' = [1, 2, 3] \<and>
   addEventListener ''world'' 3 (addEventListener ''world'' 3 two_events) =
     addEventListener ''world'' 3 two_events \<and>
   2 \<in> set (callbacks_of two_events ''world'') \<and>
   addEventListener ''world'' 2 two_events = two_events \<and>
   count_list (invoked sample_listeners ''world''
     (addEventListener ''world'' 3 (addEventListener ''world'' 3 two_events))) 3 = 1"
proof -
  note c = addEventListener_deduplicates [of "''world''" 3 two_events sample_listeners]
  note c2 = addEventListener_deduplicates [of "''world''" 2 two_events sample_listeners]
  have s: "callbacks_of (addEventListener ''world'' 3 two_events) ''world'' = [1, 2, 3]"
    by (simp add: callbacks_of_addEventListener Set_add_def)
       (simp add: callbacks_of_def two_events_def)
  have r: "\<forall>h'\<in>set (callbacks_of (addEventListener ''world'' 3 two_events) ''world'').
      returns_normally sample_listeners h'"
    by (simp add: returns_normally_sample)
  have p: "2 \<in> set (callbacks_of two_events ''world'')"
    by (simp add: callbacks_of_def two_events_def)
  have a: "addEventListener ''world'' 3 (addEventListener ''world'' 3 two_events) =
     addEventListener ''world'' 3 two_events"
    using c by (rule conjunct1)
  have b: "count_list (invoked sample_listeners ''world''
     (addEventListener ''world'' 3 (addEventListener ''world'' 3 two_events))) 3 = 1"
    using c invariant_two_events r by blast
  have d: "addEventListener ''world'' 2 two_events = two_events"
    using c2 p by blast
  show ?thesis
    using invariant_two_events s p a b d by (simp add: returns_normally_sample)
qed

text \<open>
  Claim C3. The handles a dispatch calls are the set registered for the event name when
  the dispatch began, whatever the listeners do to the registry meanwhile (the
  environment is arbitrary: a listener may register and remove handles of the same
  event name). A handle that was not in the set at that moment, such as one a listener
  registers during the dispatch, is not called by it; a handle that was in the set is
  called even when a listener has removed it by then; the next dispatch calls what is
  registered when it begins. A dispatch whose listeners return has called the whole
  set, and so has any dispatch that returned.
\<close>

theorem dispatchEvent_uses_snapshot:
  "Map_get (listeners w) e = Some callbacks \<Longrightarrow>
   (h2 \<notin> set callbacks \<longrightarrow> h2 \<notin> set (invoked \<Gamma> e w)) \<and>
   ((\<forall>h\<in>set callbacks. returns_normally \<Gamma> h) \<longrightarrow>
      invoked \<Gamma> e w = callbacks \<and> (h3 \<in> set callbacks \<longrightarrow> h3 \<in> set (invoked \<Gamma> e w))) \<and>
   (\<forall>w'. snd (dispatchEvent \<Gamma> e w) = Normal w' \<longrightarrow> invoked \<Gamma> e w = callbacks) \<and>
   ((\<forall>h\<in>set (callbacks_of (after_dispatch \<Gamma> e w) e). returns_normally \<Gamma> h) \<longrightarrow>
      invoked \<Gamma> e (after_dispatch \<Gamma> e w) = callbacks_of (after_dispatch \<Gamma> e w) e)"
proof -
  assume g: "Map_get (listeners w) e = Some callbacks"
  then have c: "callbacks_of w e = callbacks" by (simp add: callbacks_of_def)
  have "h2 \<notin> set callbacks \<longrightarrow> h2 \<notin> set (invoked \<Gamma> e w)"
    using invoked_subset [of \<Gamma> e w] c by auto
  moreover have "(\<forall>h\<in>set callbacks. returns_normally \<Gamma> h) \<longrightarrow> invoked \<Gamma> e w = callbacks"
    using invoked_returns [of w e \<Gamma>] c by simp
  moreover have "\<forall>w'. snd (dispatchEvent \<Gamma> e w) = Normal w' \<longrightarrow> invoked \<Gamma> e w = callbacks"
    using g by (simp add: invoked_def dispatchEvent_def forEach_Normal)
  moreover have "(\<forall>h\<in>set (callbacks_of (after_dispatch \<Gamma> e w) e). returns_normally \<Gamma> h) \<longrightarrow>
      invoked \<Gamma> e (after_dispatch \<Gamma> e w) = callbacks_of (after_dispatch \<Gamma> e w) e"
    using invoked_returns [of "after_dispatch \<Gamma> e w" e \<Gamma>] by simp
  ultimately show ?thesis by simp
qed

theorem dispatchEvent_uses_snapshot_witness:
  "Map_get (listeners three_listeners) ''e'' = Some [10, 11, 13] \<and>
   returns_normally reentrant 10 \<and> returns_normally reentrant 11 \<and>
   returns_normally reentrant 12 \<and> returns_normally reentrant 13 \<and>
   callbacks_of (after_dispatch reentrant ''e'' three_listeners) ''e'' = [10, 11, 12] \<and>
   12 \<notin> set (invoked reentrant ''e'' three_listeners) \<and>
   invoked reentrant ''e'' three_listeners = [10, 11, 13] \<and>
   13 \<in> set (invoked reentrant ''e'' three_listeners) \<and>
   invoked reentrant ''e'' (after_dispatch reentrant ''e'' three_listeners) = [10, 11, 12]"
proof -
  have g: "Map_get (listeners three_listeners) ''e'' = Some [10, 11, 13]"
    by (simp add: three_listeners_def)
  have a: "callbacks_of (after_dispatch reentrant ''e'' three_listeners) ''e'' = [10, 11, 12]"
    using reentrant_run by (simp add: after_dispatch_def three_listeners_def callbacks_of_def)
  show ?thesis
    using dispatchEvent_uses_snapshot [OF g, of 12 reentrant 13] g a
    by (simp add: returns_normally_reentrant)
qed

text \<open>
  Claim C4. A new target satisfies the invariant. \<^verbatim>\<open>addEventListener\<close>,
  \<^verbatim>\<open>removeEventListener\<close> and any sequence of the two keep it, and so does a dispatch
  whose listeners leave the registry alone or keep the invariant themselves. Under it
  every event name that is a key of the map has a non-empty set, and when
  \<^verbatim>\<open>removeEventListener\<close> takes the last handle of an event name, the map holds no entry
  for that name afterwards.
\<close>

theorem nonempty_entries_invariant:
  "invariant new_EventTarget \<and>
   (invariant w \<longrightarrow>
      invariant (addEventListener e h w) \<and>
      invariant (removeEventListener e h w) \<and>
      ((\<forall>h w. listeners (state_of (\<Gamma> h w)) = listeners w) \<longrightarrow> invariant (after_dispatch \<Gamma> e w)) \<and>
      ((\<forall>h w. invariant w \<longrightarrow> invariant (state_of (\<Gamma> h w))) \<longrightarrow> invariant (after_dispatch \<Gamma> e w)) \<and>
      invariant (fold perform ops w) \<and>
      (\<forall>e callbacks. Map_get (listeners w) e = Some callbacks \<longrightarrow> callbacks \<noteq> [])) \<and>
   (Map_get (listeners w) e = Some [h] \<longrightarrow>
      Map_get (listeners (removeEventListener e h w)) e = None)"
proof (intro conjI impI allI)
  show "invariant new_EventTarget" by (rule invariant_new_EventTarget)
next
  assume "invariant w"
  then show "invariant (addEventListener e h w)" by (rule invariant_addEventListener)
next
  assume "invariant w"
  then show "invariant (removeEventListener e h w)" by (rule invariant_removeEventListener)
next
  assume inv: "invariant w" and q: "\<forall>h w. listeners (state_of (\<Gamma> h w)) = listeners w"
  have "listeners (after_dispatch \<Gamma> e w) = listeners w"
    using q by (intro after_dispatch_preserves [of "\<lambda>v. listeners v = listeners w"]) simp_all
  then show "invariant (after_dispatch \<Gamma> e w)" using inv by (simp add: invariant_def)
next
  assume inv: "invariant w" and q: "\<forall>h w. invariant w \<longrightarrow> invariant (state_of (\<Gamma> h w))"
  show "invariant (after_dispatch \<Gamma> e w)"
    using q inv by (intro after_dispatch_preserves [of invariant]) simp_all
next
  assume "invariant w"
  then show "invariant (fold perform ops w)" by (rule invariant_history)
next
  fix e' callbacks
  assume "invariant w" and "Map_get (listeners w) e' = Some callbacks"
  then show "callbacks \<noteq> []" using invariant_entry by blast
next
  assume "Map_get (listeners w) e = Some [h]"
  then show "Map_get (listeners (removeEventListener e h w)) e = None"
    by (simp add: get_removeEventListener callbacks_of_def Set_delete_def)
qed

theorem nonempty_entries_invariant_witness:
  "invariant two_events \<and>
   invariant (addEventListener ''hello'' 5 two_events) \<and>
   invariant (removeEventListener ''hello'' 0 two_events) \<and>
   invariant (after_dispatch sample_listeners ''world'' two_events) \<and>
   Map_get (listeners two_events) ''hello'' = Some [0] \<and>
   Map_get (listeners (removeEventListener ''hello'' 0 two_events)) ''hello'' = None"
proof -
  have g: "Map_get (listeners two_events) ''hello'' = Some [0]"
    by (simp add: two_events_def)
  have q: "\<forall>h w. listeners (state_of (sample_listeners h w)) = listeners w"
    by (simp add: sample_listeners_keep_listeners)
  show ?thesis
    using nonempty_entries_invariant [of two_events "''hello''" 5 sample_listeners "[]"]
      nonempty_entries_invariant [of two_events "''hello''" 0 sample_listeners "[]"]
      nonempty_entries_invariant [of two_events "''world''" 0 sample_listeners "[]"]
      invariant_two_events g q
    by blast
qed

text \<open>
  Claim C5. \<^verbatim>\<open>removeEventListener\<close> for an event name with no entry, or for a handle
  that is not in the set of the event name, returns the state it was given, and so does
  \<^verbatim>\<open>dispatchEvent\<close> for an event name with no entry, completing normally with no handle
  called; none of the three has a failure to signal. Removing a handle a second time
  changes nothing more, and the handle is not called by a dispatch that follows.
\<close>

theorem silent_no_ops:
  "(Map_get (listeners w) e = None \<longrightarrow>
      removeEventListener e h w = w \<and> dispatchEvent \<Gamma> e w = ([], Normal w)) \<and>
   (invariant w \<longrightarrow> h \<notin> set (callbacks_of w e) \<longrightarrow> removeEventListener e h w = w) \<and>
   removeEventListener e h (removeEventListener e h w) = removeEventListener e h w \<and>
   h \<notin> set (invoked \<Gamma> e (removeEventListener e h (removeEventListener e h w)))"
proof (intro conjI impI)
  assume "Map_get (listeners w) e = None"
  then show "removeEventListener e h w = w" by (simp add: removeEventListener_def)
next
  assume "Map_get (listeners w) e = None"
  then show "dispatchEvent \<Gamma> e w = ([], Normal w)" by (rule dispatchEvent_absent)
next
  assume "invariant w" and "h \<notin> set (callbacks_of w e)"
  then show "removeEventListener e h w = w" by (rule removeEventListener_absent)
next
  show "removeEventListener e h (removeEventListener e h w) = removeEventListener e h w"
    by (rule removeEventListener_twice)
next
  have "h \<notin> set (callbacks_of (removeEventListener e h w) e)"
    by (simp add: callbacks_of_removeEventListener Set_delete_def)
  then show "h \<notin> set (invoked \<Gamma> e (removeEventListener e h (removeEventListener e h w)))"
    using invoked_subset [of \<Gamma> e "removeEventListener e h w"]
    by (auto simp: removeEventListener_twice)
qed

theorem silent_no_ops_witness:
  "Map_get (listeners two_events) ''other'' = None \<and>
   removeEventListener ''other'' 0 two_events = two_events \<and>
   dispatchEvent sample_listeners ''other'' two_events = ([], Normal two_events) \<and>
   invariant two_events \<and>
   0 \<notin> set (callbacks_of two_events ''world'') \<and>
   removeEventListener ''world'' 0 two_events = two_events \<and>
   removeEventListener ''world'' 1 (removeEventListener ''world'' 1 two_events) =
     removeEventListener ''world'' 1 two_events \<and>
   1 \<notin> set (invoked sample_listeners ''world''
           (removeEventListener ''world'' 1 (removeEventListener ''world'' 1 two_events)))"
proof -
  have n: "Map_get (listeners two_events) ''other'' = None"
    by (simp add: two_events_def)
  have a: "0 \<notin> set (callbacks_of two_events ''world'')"
    by (simp add: callbacks_of_def two_events_def)
  show ?thesis
    using silent_no_ops [of two_events "''other''" 0 sample_listeners]
      silent_no_ops [of two_events "''world''" 0 sample_listeners]
      silent_no_ops [of two_events "''world''" 1 sample_listeners]
      n a invariant_two_events
    by blast
qed

text \<open>
  Claim C6. For two different event names A and B, a handle registered under A and not
  under B is not called by a dispatch of B, in any state of the registry and whatever
  the listeners do; in particular after any history of registrations and removals, on
  a target that had no listener, in which the handle was never registered under B.
\<close>

theorem events_independent:
  "A \<noteq> B \<Longrightarrow>
   (h \<in> set (callbacks_of w A) \<longrightarrow> h \<notin> set (callbacks_of w B) \<longrightarrow> h \<notin> set (invoked \<Gamma> B w)) \<and>
   (listeners w0 = [] \<longrightarrow> Add B h \<notin> set ops \<longrightarrow>
      h \<notin> set (invoked \<Gamma> B (fold perform ops w0)))"
proof (intro conjI impI)
  assume "h \<notin> set (callbacks_of w B)"
  then show "h \<notin> set (invoked \<Gamma> B w)" using invoked_subset [of \<Gamma> B w] by auto
next
  assume "listeners w0 = []" and "Add B h \<notin> set ops"
  then have "h \<notin> set (callbacks_of (fold perform ops w0) B)"
    by (intro never_added) (simp_all add: callbacks_of_no_listeners)
  then show "h \<notin> set (invoked \<Gamma> B (fold perform ops w0))"
    using invoked_subset [of \<Gamma> B "fold perform ops w0"] by auto
qed

theorem events_independent_witness:
  "''hello'' \<noteq> ''world'' \<and>
   0 \<in> set (callbacks_of two_events ''hello'') \<and>
   0 \<notin> set (callbacks_of two_events ''world'') \<and>
   0 \<notin> set (invoked sample_listeners ''world'' two_events) \<and>
   listeners new_EventTarget = [] \<and>
   Add ''world'' 0 \<notin> set [Add ''hello'' 0, Add ''world'' 1, Remove ''world'' 1, Add ''world'' 2] \<and>
   0 \<notin> set (invoked sample_listeners ''world''
           (fold perform [Add ''hello'' 0, Add ''world'' 1, Remove ''world'' 1, Add ''world'' 2]
              new_EventTarget))"
proof -
  have d: "''hello'' \<noteq> ''world''" by simp
  have a: "0 \<in> set (callbacks_of two_events ''hello'')"
    by (simp add: callbacks_of_def two_events_def)
  have b: "0 \<notin> set (callbacks_of two_events ''world'')"
    by (simp add: callbacks_of_def two_events_def)
  have c: "Add ''world'' 0 \<notin> set [Add ''hello'' 0, Add ''world'' 1, Remove ''world'' 1, Add ''world'' 2]"
    by simp
  show ?thesis
    using events_independent [OF d, of 0 two_events sample_listeners new_EventTarget
        "[Add ''hello'' 0, Add ''world'' 1, Remove ''world'' 1, Add ''world'' 2]"]
      d a b c listeners_new_EventTarget
    by blast
qed

text \<open>
  Claim C7. \<^verbatim>\<open>addEventListener\<close> has a result for every event name and has no failure:
  under the name it was given the set is the old one with the handle added, every other
  name keeps its set, and a dispatch of the name calls the handle (the listeners of the
  name being ones that return). The empty string is a name like any other: the last
  part is the same statement at \<open>[]\<close>.
\<close>

theorem addEventListener_any_name:
  "callbacks_of (addEventListener e h w) e' =
     (if e' = e then Set_add h (callbacks_of w e) else callbacks_of w e') \<and>
   h \<in> set (callbacks_of (addEventListener e h w) e) \<and>
   ((\<forall>h'\<in>set (callbacks_of (addEventListener e h w) e). returns_normally \<Gamma> h') \<longrightarrow>
      h \<in> set (invoked \<Gamma> e (addEventListener e h w))) \<and>
   ((\<forall>h'\<in>set (callbacks_of (addEventListener [] h w) []). returns_normally \<Gamma> h') \<longrightarrow>
      h \<in> set (invoked \<Gamma> [] (addEventListener [] h w)))"
proof -
  have m: "h \<in> set (callbacks_of (addEventListener e h w) e)" for e
    by (simp add: callbacks_of_addEventListener Set_add_def)
  have i: "(\<forall>h'\<in>set (callbacks_of (addEventListener e h w) e). returns_normally \<Gamma> h') \<longrightarrow>
      h \<in> set (invoked \<Gamma> e (addEventListener e h w))" for e
    using m [of e] invoked_returns [of "addEventListener e h w" e \<Gamma>] by auto
  show ?thesis using m [of e] i [of e] i [of "[]"] by (simp add: callbacks_of_addEventListener)
qed

theorem addEventListener_any_name_witness:
  "callbacks_of (addEventListener [] 7 two_events) [] = [7] \<and>
   callbacks_of (addEventListener [] 7 two_events) ''world'' = [1, 2] \<and>
   returns_normally idle 7 \<and>
   7 \<in> set (invoked idle [] (addEventListener [] 7 two_events))"
proof -
  note c = addEventListener_any_name [of "[]" 7 two_events "[]" idle]
  note c' = addEventListener_any_name [of "[]" 7 two_events "''world''" idle]
  have s: "callbacks_of (addEventListener [] 7 two_events) [] = [7]"
    using c by (simp add: callbacks_of_def two_events_def Set_add_def)
  have s': "callbacks_of (addEventListener [] 7 two_events) ''world'' = [1, 2]"
    using c' by (simp add: callbacks_of_def two_events_def)
  have r: "\<forall>h'\<in>set (callbacks_of (addEventListener [] 7 two_events) []). returns_normally idle h'"
    by (simp add: returns_normally_idle)
  have "7 \<in> set (invoked idle [] (addEventListener [] 7 two_events))"
    using c r by blast
  then show ?thesis using s s' by (simp add: returns_normally_idle)
qed

text \<open>
  Claim C8. The sample usage, run from a new target: the first dispatch of \<open>''hello''\<close>
  calls \<open>logHello\<close> once, the first dispatch of \<open>''world''\<close> calls \<open>logWorld\<close> and the
  second listener; after \<open>logHello\<close> is removed the dispatch of \<open>''hello''\<close> calls
  nothing and the dispatch of \<open>''world''\<close> calls the same two again. The script ends
  normally with only \<open>''world''\<close> left in the map and seven lines on the console.
\<close>

theorem sample_usage_run:
  "exec sample_listeners sample_usage new_EventTarget =
     ([[logHello], [logWorld, worldAgain], [], [logWorld, worldAgain]],
      Normal \<lparr>listeners = [(''world'', [logWorld, worldAgain])],
              console = [''--- Initial Registration and Dispatch ---'',
                         ''hello'', ''world'', ''world again!'',
                         CHR 0x0A # ''--- Removing Listener and Re-dispatching ---'',
                         ''world'', ''world again!'']\<rparr>)"
  by (simp add: sample_usage_def sample_listeners_def logHello_def logWorld_def worldAgain_def
      eval_defs)

theorem sample_usage_run_witness:
  "map length (fst (exec sample_listeners sample_usage new_EventTarget)) = [1, 2, 0, 2]"
  using sample_usage_run by simp

text \<open>
  Claim C9, as the code has it. After a history of registrations and removals on a
  target that had no listener, a dispatch calls the handles in the insertion order of the set: the order of
  the registrations that still stand, each handle at the first registration made since
  it was last removed, so that a handle removed and registered again is called last.
  When the history removes nothing this is the order in which each handle was first
  registered. The order is a function of the history, so two runs of one history call
  in the same order. (Listeners that return.)
\<close>

theorem dispatch_order_is_insertion_order:
  "listeners w = [] \<Longrightarrow> \<forall>h. returns_normally \<Gamma> h \<Longrightarrow>
   invoked \<Gamma> e (fold perform ops w) = first_occurrences (standing e ops) \<and>
   ((\<forall>e h. Remove e h \<notin> set ops) \<longrightarrow>
      invoked \<Gamma> e (fold perform ops w) = first_occurrences (registrations e ops))"
proof -
  assume n: "listeners w = []" and "\<forall>h. returns_normally \<Gamma> h"
  then have "invoked \<Gamma> e (fold perform ops w) = callbacks_of (fold perform ops w) e"
    by (intro invoked_returns) simp
  then show ?thesis using n by (simp add: callbacks_of_history standing_no_Remove)
qed

theorem dispatch_order_is_insertion_order_witness:
  "listeners new_EventTarget = [] \<and> returns_normally idle 1 \<and> returns_normally idle 2 \<and>
   invoked idle ''e''
     (fold perform [Add ''e'' 1, Add ''e'' 2, Remove ''e'' 1, Add ''e'' 1] new_EventTarget) = [2, 1] \<and>
   invoked idle ''e'' (fold perform [Add ''e'' 1, Add ''e'' 2, Add ''e'' 1] new_EventTarget) = [1, 2]"
proof -
  have r: "\<forall>h. returns_normally idle h" by (simp add: returns_normally_idle)
  have n: "\<forall>e h. Remove e h \<notin> set [Add ''e'' 1, Add ''e'' 2, Add ''e'' 1]" by simp
  show ?thesis
    using dispatch_order_is_insertion_order [OF listeners_new_EventTarget r, of "''e''"
        "[Add ''e'' 1, Add ''e'' 2, Remove ''e'' 1, Add ''e'' 1]"]
      dispatch_order_is_insertion_order [OF listeners_new_EventTarget r, of "''e''"
        "[Add ''e'' 1, Add ''e'' 2, Add ''e'' 1]"]
      n r listeners_new_EventTarget
    by simp
qed

text \<open>
  Claim C9, as it is worded, fails: handle 1 is registered first and handle 2 second,
  then 1 is removed and registered again. Both are registered and 1 was first registered
  before 2, yet the dispatch calls 2 before 1.
\<close>

theorem dispatch_order_not_first_registered:
  "invoked idle ''e''
     (fold perform [Add ''e'' 1, Add ''e'' 2, Remove ''e'' 1, Add ''e'' 1] new_EventTarget)
   \<noteq> first_registered ''e'' [Add ''e'' 1, Add ''e'' 2, Remove ''e'' 1, Add ''e'' 1]"
  by (simp add: first_registered_def idle_def eval_defs)

text \<open>
  Claim C10. In a state that satisfies the invariant, registering a handle that is not
  registered for the event name and removing it again gives back the very state: the
  set of the event name is as before, and an entry made for the registration is deleted
  again.
\<close>

theorem add_then_remove_restores:
  "invariant w \<Longrightarrow> h \<notin> set (callbacks_of w e) \<Longrightarrow>
   removeEventListener e h (addEventListener e h w) = w"
proof (cases "Map_get (listeners w) e")
  case None
  then show ?thesis
    by (simp add: addEventListener_def removeEventListener_def Let_def Set_add_def
        Set_delete_def Set_size_def Map_get_set Map_set_set Map_delete_set Map_delete_absent)
next
  case (Some s)
  assume inv: "invariant w" and n: "h \<notin> set (callbacks_of w e)"
  have "s \<noteq> []" using inv Some invariant_entry by blast
  moreover have "h \<notin> set s" using n Some by (simp add: callbacks_of_def)
  ultimately show ?thesis
    using Some
    by (simp add: addEventListener_def removeEventListener_def Let_def Set_delete_Set_add
        Set_size_def Map_get_set Map_set_set Map_set_same)
qed

theorem add_then_remove_restores_witness:
  "invariant two_events \<and>
   3 \<notin> set (callbacks_of two_events ''world'') \<and>
   removeEventListener ''world'' 3 (addEventListener ''world'' 3 two_events) = two_events \<and>
   3 \<notin> set (callbacks_of two_events ''fresh'') \<and>
   removeEventListener ''fresh'' 3 (addEventListener ''fresh'' 3 two_events) = two_events"
proof -
  have a: "3 \<notin> set (callbacks_of two_events ''world'')"
    by (simp add: callbacks_of_def two_events_def)
  have b: "3 \<notin> set (callbacks_of two_events ''fresh'')"
    by (simp add: callbacks_of_def two_events_def)
  show ?thesis
    using add_then_remove_restores [OF invariant_two_events a]
      add_then_remove_restores [OF invariant_two_events b]
      invariant_two_events a b
    by blast
qed

end
